theory Spec2Isabelle
  imports Main "HOL-Library.Multiset"
begin

section \<open>The client cache of pandaproxy (kafka\_client\_cache.cc)\<close>

text \<open>
  A shallow embedding of \<^verbatim>\<open>src/v/pandaproxy/kafka_client_cache.cc\<close>.

  \<^item> Time points of the low-resolution clock and durations are integers. The declaration
    of the clock is outside the source file; its tick is taken to be the millisecond, so a
    reading and a keep-alive add without conversion. Where the code adds a duration that its
    caller chooses freely (the keep-alive) the sum is taken in signed 64-bit arithmetic with
    the wrap-around written out (\<open>int64_wrap\<close>). Every operation that reads the clock takes
    the reading \<open>now\<close> as an argument (\<open>fetch_or_insert\<close> does not suspend, so its two
    readings agree).
  \<^item> A \<open>client_ptr\<close> is a shared pointer: an address into a heap of client objects.
    \<open>make_client\<close> allocates the next fresh address.
  \<^item> The container type of \<open>_cache\<close> is declared in the header, which is not among the
    sources; following section 4.1 of the specification it is the list of its recency-ordered
    view (front = head), the keyed view is a lookup by key in that list, and iterators are
    positions.
  \<^item> A failed future is the value \<open>Some ex\<close> in the first component of a result, the
    state is the second. The coroutines suspend at every \<open>co_await\<close> of a client's
    \<open>stop\<close>, and may do so where one of them awaits \<open>remove_client_if\<close>; what runs on
    the cache in the meantime is given by a schedule: for each suspension in turn, the calls
    of \<open>fetch_or_insert\<close> that are served before the coroutine resumes. \<open>clean_stale_clients\<close> and \<open>stop\<close> without a schedule are the runs during
    which nothing else is served.
  \<^item> \<open>kafka::client::client::stop\<close> is an external collaborator: whether stopping a
    client fails is a parameter \<open>outcome\<close> of the operations that stop clients. Every call
    of \<open>stop\<close> is recorded, in order, in the field \<open>stopped\<close>.
\<close>

subsection \<open>Data\<close>

type_synonym time_point = int
type_synonym milliseconds = int
type_synonym client_ptr = nat
type_synonym exception_ptr = string

text \<open>
  Modelled from the spec: the class \<open>kafka::client::configuration\<close> is declared outside
  the source file. Of its properties the model has the three that the cache touches (section
  4.6: the SASL mechanism, the user name and the password); the rest is passed on untouched.
\<close>

record configuration =
  sasl_mechanism :: string
  scram_username :: string
  scram_password :: string

text \<open>A client, as far as the cache looks into it: the configuration it was made with.\<close>

record kafka_client =
  client_config :: configuration

text \<open>
  Modelled from the spec: \<open>credential_t\<close> and \<open>config::rest_authn_method\<close> are declared
  outside the source file. A credential is an identity and a secret (section 3); of the
  authentication methods the code distinguishes \<open>http_basic\<close> from every other one.
\<close>

record credential_t =
  name :: string
  pass :: string

datatype rest_authn_method = authn_none | http_basic

text \<open>
  Modelled from the spec: the struct \<open>timestamped_user\<close> is declared in the header, which is
  not among the sources. An entry is an identity, a client handle and the time of last use
  (section 3), and a new entry has \<open>last_used = now\<close> (section 4.2, step 2).
\<close>

record timestamped_user =
  key :: string
  client :: client_ptr
  last_used :: time_point

definition mk_timestamped_user :: "string \<Rightarrow> client_ptr \<Rightarrow> time_point \<Rightarrow> timestamped_user" where
  "mk_timestamped_user k c now = \<lparr>key = k, client = c, last_used = now\<rparr>"

text \<open>
  Modelled from the spec: the timer belongs to the owner of the cache (section 4.4). The cache
  asks whether it is armed, reads its deadline and re-arms it.
\<close>

record timer =
  armed :: bool
  get_timeout :: time_point

definition rearm :: "time_point \<Rightarrow> timer \<Rightarrow> timer" where
  "rearm until t = t\<lparr>armed := True, get_timeout := until\<rparr>"

datatype log_line =
  Cache_size_reached_evicting string
  | Make_client_for_user string
  | Updating_password_for_user string
  | Reuse_client_for_user string
  | Stale_client_stop_already_happened string exception_ptr

text \<open>
  The members of \<open>kafka_client_cache\<close> (the timer is a reference to a timer of the owner),
  followed by the surroundings the code acts on: the heap of clients, the next free
  address, the calls of \<open>stop\<close> so far and the debug log.
\<close>

record kafka_client_cache =
  config :: configuration
  cache_max_size :: nat
  keep_alive :: milliseconds
  cache :: "timestamped_user list"
  evicted_items :: "timestamped_user list"
  clean_and_evict_timer :: timer
  heap :: "client_ptr \<rightharpoonup> kafka_client"
  next_ptr :: client_ptr
  stopped :: "client_ptr list"
  plog :: "log_line list"

definition new_cache :: "configuration \<Rightarrow> nat \<Rightarrow> milliseconds \<Rightarrow> timer \<Rightarrow> kafka_client_cache" where
  "new_cache cfg max_sz ka tm =
     \<lparr>config = cfg, cache_max_size = max_sz, keep_alive = ka, cache = [],
      evicted_items = [], clean_and_evict_timer = tm, heap = Map.empty, next_ptr = 0,
      stopped = [], plog = []\<rparr>"

definition vlog :: "log_line \<Rightarrow> kafka_client_cache \<Rightarrow> kafka_client_cache" where
  "vlog l s = s\<lparr>plog := plog s @ [l]\<rparr>"

subsection \<open>make\_client\<close>

definition make_client ::
  "credential_t \<Rightarrow> rest_authn_method \<Rightarrow> kafka_client_cache \<Rightarrow> client_ptr \<times> kafka_client_cache" where
  "make_client user authn_method s =
     (let cfg = config s;
          cfg = (if authn_method = http_basic
                 then cfg\<lparr>sasl_mechanism := ''SCRAM-SHA-256'',
                          scram_username := name user,
                          scram_password := pass user\<rparr>
                 else cfg);
          p = next_ptr s
      in (p, s\<lparr>heap := (heap s)(p \<mapsto> \<lparr>client_config = cfg\<rparr>), next_ptr := Suc p\<rparr>))"

subsection \<open>fetch\_or\_insert\<close>

text \<open>\<open>inner_hash.find(k)\<close>: the position of the entry with key \<open>k\<close>, if there is one.\<close>

fun hash_find :: "string \<Rightarrow> timestamped_user list \<Rightarrow> nat option" where
  "hash_find k [] = None"
| "hash_find k (e # es) = (if key e = k then Some 0 else map_option Suc (hash_find k es))"

text \<open>
  \<open>inner_list.modify(it, f)\<close> and \<open>inner_list.relocate(inner_list.begin(), it)\<close>. The
  position comes from \<open>hash_find\<close> and is in range; outside the range both leave the list
  as it is.
\<close>

definition modify :: "nat \<Rightarrow> ('a \<Rightarrow> 'a) \<Rightarrow> 'a list \<Rightarrow> 'a list" where
  "modify i f xs = (if i < length xs then xs[i := f (xs ! i)] else xs)"

definition relocate_front :: "nat \<Rightarrow> 'a list \<Rightarrow> 'a list" where
  "relocate_front i xs = (if i < length xs then xs ! i # take i xs @ drop (Suc i) xs else xs)"

text \<open>
  The eviction of the least recently used entry, lines 63 to 81 of the source. The window is
  a clock reading plus one second; a reading within a second of the 64-bit limit does not
  occur, and the sum is not wrapped.
\<close>

definition evict_back :: "time_point \<Rightarrow> kafka_client_cache \<Rightarrow> kafka_client_cache" where
  "evict_back now s =
     (let item = last (cache s);
          s = vlog (Cache_size_reached_evicting (key item)) s;
          s = s\<lparr>cache := butlast (cache s)\<rparr>;
          s = s\<lparr>evicted_items := evicted_items s @ [item]\<rparr>;
          window = now + 1000;
          tm = clean_and_evict_timer s
      in if \<not> armed tm \<or> (armed tm \<and> get_timeout tm > window)
         then s\<lparr>clean_and_evict_timer := rearm window tm\<rparr>
         else s)"

text \<open>
  A \<open>client_ptr\<close> in the index always points to a client, so the branch \<open>None\<close> of the
  heap lookup below is never taken (see \<open>cache_inv\<close>); it leaves the state as it is.
\<close>

definition fetch_or_insert ::
  "credential_t \<Rightarrow> rest_authn_method \<Rightarrow> time_point \<Rightarrow> kafka_client_cache
     \<Rightarrow> client_ptr \<times> kafka_client_cache" where
  "fetch_or_insert user authn_method now s =
     (let k = name user in
      case hash_find k (cache s) of
        None \<Rightarrow>
          (let s = (if length (cache s) \<ge> cache_max_size s
                    then (if cache s \<noteq> [] then evict_back now s else s)
                    else s);
               s = vlog (Make_client_for_user k) s;
               (c, s) = make_client user authn_method s
           in (c, s\<lparr>cache := mk_timestamped_user k c now # cache s\<rparr>))
      | Some it \<Rightarrow>
          (let c = client (cache s ! it);
               s = (case heap s c of
                      None \<Rightarrow> s
                    | Some cl \<Rightarrow>
                        if scram_password (client_config cl) \<noteq> pass user
                        then (vlog (Updating_password_for_user k) s)
                               \<lparr>heap := (heap s)(c \<mapsto>
                                  cl\<lparr>client_config :=
                                       (client_config cl)\<lparr>scram_password := pass user\<rparr>\<rparr>)\<rparr>
                        else vlog (Reuse_client_for_user k) s);
               s = s\<lparr>cache := modify it (\<lambda>item. item\<lparr>last_used := now\<rparr>) (cache s)\<rparr>;
               s = s\<lparr>cache := relocate_front it (cache s)\<rparr>
           in (c, s)))"

subsection \<open>remove\_client\_if, clean\_stale\_clients, stop\<close>

text \<open>
  The first loop of \<open>remove_client_if\<close>: the entries that satisfy the predicate move to
  \<open>remove\<close> in the order of the scan, the others stay where they are.
\<close>

fun erase_loop ::
  "('a \<Rightarrow> bool) \<Rightarrow> 'a list \<Rightarrow> 'a list \<Rightarrow> 'a list \<Rightarrow> 'a list \<times> 'a list" where
  "erase_loop pred [] kept remove = (kept, remove)"
| "erase_loop pred (x # xs) kept remove =
     (if pred x then erase_loop pred xs kept (remove @ [x])
      else erase_loop pred xs (kept @ [x]) remove)"

text \<open>
  \<open>item.client->stop()\<close>: the call is recorded, its outcome is the one the surroundings
  give. \<open>handle_exception\<close> turns a failed future into a successful one after running the
  handler.
\<close>

type_synonym 'a future = "exception_ptr option \<times> 'a"

definition client_stop ::
  "(client_ptr \<Rightarrow> exception_ptr option) \<Rightarrow> client_ptr \<Rightarrow> kafka_client_cache
     \<Rightarrow> kafka_client_cache future" where
  "client_stop outcome c s = (outcome c, s\<lparr>stopped := stopped s @ [c]\<rparr>)"

definition handle_exception ::
  "(exception_ptr \<Rightarrow> 's \<Rightarrow> 's) \<Rightarrow> 's future \<Rightarrow> 's future" where
  "handle_exception handler fut =
     (case fut of (None, s) \<Rightarrow> (None, s) | (Some ex, s) \<Rightarrow> (None, handler ex s))"

text \<open>
  While a coroutine is suspended other callers are served: \<open>concurrent\<close> runs their calls
  of \<open>fetch_or_insert\<close>, and \<open>suspend\<close> lets them run between the call of a client's
  \<open>stop\<close> and the moment its future is awaited.
\<close>

type_synonym call = "credential_t \<times> rest_authn_method \<times> time_point"

fun concurrent :: "call list \<Rightarrow> kafka_client_cache \<Rightarrow> kafka_client_cache" where
  "concurrent [] s = s"
| "concurrent ((user, authn_method, now) # cs) s =
     concurrent cs (snd (fetch_or_insert user authn_method now s))"

definition suspend :: "call list \<Rightarrow> kafka_client_cache future \<Rightarrow> kafka_client_cache future" where
  "suspend cs fut = (case fut of (r, s) \<Rightarrow> (r, concurrent cs s))"

text \<open>
  The second loop: one client after the other; an exception that is awaited ends the loop.
  The head of the schedule is what runs during the suspension at this client, the tail is
  for the clients that follow; a schedule that has run out leaves the suspensions empty.
  When the loop has ended the caller, which awaits \<open>remove_client_if\<close> (lines 150 to 160),
  may itself be resumed later: what is left of the schedule is served before it resumes.
\<close>

fun stop_loop ::
  "(client_ptr \<Rightarrow> exception_ptr option) \<Rightarrow> timestamped_user list \<Rightarrow> call list list
     \<Rightarrow> kafka_client_cache \<Rightarrow> kafka_client_cache future" where
  "stop_loop outcome [] sched s = (None, concurrent (concat sched) s)"
| "stop_loop outcome (item # items) sched s =
     (case handle_exception
             (\<lambda>ex. vlog (Stale_client_stop_already_happened (key item) ex))
             (suspend (case sched of [] \<Rightarrow> [] | cs # _ \<Rightarrow> cs)
                (client_stop outcome (client item) s)) of
        (Some ex, s') \<Rightarrow> (Some ex, s')
      | (None, s') \<Rightarrow> stop_loop outcome items (tl sched) s')"

text \<open>The list is passed by reference: \<open>get_list\<close> reads it, \<open>set_list\<close> writes it back.\<close>

definition remove_client_if_interleaved ::
  "(client_ptr \<Rightarrow> exception_ptr option)
     \<Rightarrow> (kafka_client_cache \<Rightarrow> timestamped_user list)
     \<Rightarrow> (timestamped_user list \<Rightarrow> kafka_client_cache \<Rightarrow> kafka_client_cache)
     \<Rightarrow> (timestamped_user \<Rightarrow> bool) \<Rightarrow> call list list
     \<Rightarrow> kafka_client_cache \<Rightarrow> kafka_client_cache future" where
  "remove_client_if_interleaved outcome get_list set_list pred sched s =
     (case erase_loop pred (get_list s) [] [] of
        (kept, remove) \<Rightarrow> stop_loop outcome remove sched (set_list kept s))"

definition remove_client_if ::
  "(client_ptr \<Rightarrow> exception_ptr option)
     \<Rightarrow> (kafka_client_cache \<Rightarrow> timestamped_user list)
     \<Rightarrow> (timestamped_user list \<Rightarrow> kafka_client_cache \<Rightarrow> kafka_client_cache)
     \<Rightarrow> (timestamped_user \<Rightarrow> bool) \<Rightarrow> kafka_client_cache \<Rightarrow> kafka_client_cache future" where
  "remove_client_if outcome get_list set_list pred s =
     remove_client_if_interleaved outcome get_list set_list pred [] s"

definition set_inner_list :: "timestamped_user list \<Rightarrow> kafka_client_cache \<Rightarrow> kafka_client_cache" where
  "set_inner_list xs s = s\<lparr>cache := xs\<rparr>"

definition set_evicted_items :: "timestamped_user list \<Rightarrow> kafka_client_cache \<Rightarrow> kafka_client_cache" where
  "set_evicted_items xs s = s\<lparr>evicted_items := xs\<rparr>"

text \<open>
  The expiry test of line 146, \<open>now >= (item.last_used + keep_alive)\<close>. The sum is a sum of
  signed 64-bit counts: \<open>int64_wrap\<close> is the value that the 64 bits of a sum hold, and
  \<open>fits_int64\<close> says that a sum needs no wrapping.
\<close>

definition int64_wrap :: "int \<Rightarrow> int" where
  "int64_wrap x = (x + 9223372036854775808) mod 18446744073709551616 - 9223372036854775808"


definition is_expired :: "milliseconds \<Rightarrow> time_point \<Rightarrow> timestamped_user \<Rightarrow> bool" where
  "is_expired ka now item = (now \<ge> int64_wrap (last_used item + ka))"

definition always :: "'a \<Rightarrow> bool" where
  "always item = True"

text \<open>
  The two coroutines of the cache, each with one schedule for the suspensions of its first
  \<open>remove_client_if\<close> and one for those of its second.
\<close>

definition clean_stale_clients_interleaved ::
  "(client_ptr \<Rightarrow> exception_ptr option) \<Rightarrow> time_point \<Rightarrow> call list list \<Rightarrow> call list list
     \<Rightarrow> kafka_client_cache \<Rightarrow> kafka_client_cache future" where
  "clean_stale_clients_interleaved outcome now sched1 sched2 s =
     (case remove_client_if_interleaved outcome cache set_inner_list
             (is_expired (keep_alive s) now) sched1 s of
        (Some ex, s') \<Rightarrow> (Some ex, s')
      | (None, s') \<Rightarrow>
          remove_client_if_interleaved outcome evicted_items set_evicted_items always sched2 s')"

definition stop_interleaved ::
  "(client_ptr \<Rightarrow> exception_ptr option) \<Rightarrow> call list list \<Rightarrow> call list list
     \<Rightarrow> kafka_client_cache \<Rightarrow> kafka_client_cache future" where
  "stop_interleaved outcome sched1 sched2 s =
     (case remove_client_if_interleaved outcome cache set_inner_list always sched1 s of
        (Some ex, s') \<Rightarrow> (Some ex, s')
      | (None, s') \<Rightarrow>
          remove_client_if_interleaved outcome evicted_items set_evicted_items always sched2 s')"

text \<open>The runs of the two coroutines during which no other call is served.\<close>

definition clean_stale_clients ::
  "(client_ptr \<Rightarrow> exception_ptr option) \<Rightarrow> time_point \<Rightarrow> kafka_client_cache
     \<Rightarrow> kafka_client_cache future" where
  "clean_stale_clients outcome now s = clean_stale_clients_interleaved outcome now [] [] s"

definition stop ::
  "(client_ptr \<Rightarrow> exception_ptr option) \<Rightarrow> kafka_client_cache \<Rightarrow> kafka_client_cache future" where
  "stop outcome s = stop_interleaved outcome [] [] s"

definition cache_size :: "kafka_client_cache \<Rightarrow> nat" where
  "cache_size s = length (cache s)"

definition max_size :: "kafka_client_cache \<Rightarrow> nat" where
  "max_size s = cache_max_size s"

subsection \<open>Sequences of operations\<close>

text \<open>
  What can happen to a cache: the three operations, and the owner of the timer arming,
  cancelling or firing it.
\<close>

datatype operation =
  Fetch_or_insert credential_t rest_authn_method time_point
  | Clean_stale_clients "client_ptr \<Rightarrow> exception_ptr option" time_point
  | Stop "client_ptr \<Rightarrow> exception_ptr option"
  | Timer_changed timer

fun step :: "operation \<Rightarrow> kafka_client_cache \<Rightarrow> kafka_client_cache" where
  "step (Fetch_or_insert user authn_method now) s = snd (fetch_or_insert user authn_method now s)"
| "step (Clean_stale_clients outcome now) s = snd (clean_stale_clients outcome now s)"
| "step (Stop outcome) s = snd (stop outcome s)"
| "step (Timer_changed tm) s = s\<lparr>clean_and_evict_timer := tm\<rparr>"

fun run :: "operation list \<Rightarrow> kafka_client_cache \<Rightarrow> kafka_client_cache" where
  "run [] s = s"
| "run (op # ops) s = run ops (step op s)"

subsection \<open>Notions used in the statements\<close>

text \<open>The debug lines that a run of the second loop writes: one for every client whose stop fails.\<close>

definition failure_lines :: "(client_ptr \<Rightarrow> exception_ptr option) \<Rightarrow> timestamped_user list \<Rightarrow> log_line list" where
  "failure_lines outcome items =
     concat (map (\<lambda>item. case outcome (client item) of
                            None \<Rightarrow> []
                          | Some ex \<Rightarrow> [Stale_client_stop_already_happened (key item) ex]) items)"

text \<open>The condition under which a call that misses evicts the entry at the back.\<close>

definition evicting :: "kafka_client_cache \<Rightarrow> bool" where
  "evicting s = (length (cache s) \<ge> cache_max_size s \<and> cache s \<noteq> [])"

text \<open>
  What holds of every cache that the operations can produce: keys are unique in the index
  (the hashed view), every client made so far is in exactly one of the index, the list of
  evicted items and the clients stopped, the heap holds exactly the clients made so far,
  and the index is no longer than the larger of its maximum and one.
\<close>

definition cache_inv :: "kafka_client_cache \<Rightarrow> bool" where
  "cache_inv s = (distinct (map key (cache s)) \<and>
           mset (map client (cache s) @ map client (evicted_items s) @ stopped s)
             = mset [0..<next_ptr s] \<and>
           dom (heap s) = {..<next_ptr s} \<and>
           length (cache s) \<le> max (cache_max_size s) 1)"

text \<open>
  The handles that the calls of \<open>fetch_or_insert\<close> in a sequence of operations return, each
  with the identity it was returned for, in the order of the calls.
\<close>

fun returned :: "operation list \<Rightarrow> kafka_client_cache \<Rightarrow> (string \<times> client_ptr) list" where
  "returned [] s = []"
| "returned (op # ops) s =
     (case op of
        Fetch_or_insert user a now \<Rightarrow> [(name user, fst (fetch_or_insert user a now s))]
      | _ \<Rightarrow> []) @ returned ops (step op s)"

definition key_client :: "timestamped_user \<Rightarrow> string \<times> client_ptr" where
  "key_client e = (key e, client e)"

subsection \<open>Concrete inputs for the worked examples\<close>

definition example_config :: configuration where
  "example_config = \<lparr>sasl_mechanism = ''PLAIN'', scram_username = ''proxy'', scram_password = ''proxy''\<rparr>"

definition example_timer :: timer where
  "example_timer = \<lparr>armed = False, get_timeout = 0\<rparr>"

definition alice :: credential_t where
  "alice = \<lparr>name = ''alice'', pass = ''a1''\<rparr>"

definition bob :: credential_t where
  "bob = \<lparr>name = ''bob'', pass = ''b1''\<rparr>"

definition carol :: credential_t where
  "carol = \<lparr>name = ''carol'', pass = ''c1''\<rparr>"

definition dave :: credential_t where
  "dave = \<lparr>name = ''dave'', pass = ''d1''\<rparr>"

definition no_failure :: "client_ptr \<Rightarrow> exception_ptr option" where
  "no_failure c = None"

text \<open>A surrounding in which stopping client 1 fails and stopping any other client succeeds.\<close>

definition failing_stop :: "client_ptr \<Rightarrow> exception_ptr option" where
  "failing_stop c = (if c = 1 then Some ''broken pipe'' else None)"

section \<open>Auxiliary facts\<close>

subsection \<open>The two loops of remove\_client\_if\<close>

lemma erase_loop_filter:
  "erase_loop pred xs kept remove = (kept @ filter (\<lambda>x. \<not> pred x) xs, remove @ filter pred xs)"
  by (induction xs arbitrary: kept remove) simp_all

lemma failure_lines_Nil [simp]: "failure_lines outcome [] = []"
  by (simp add: failure_lines_def)

lemma failure_lines_Cons:
  "failure_lines outcome (item # items) =
     (case outcome (client item) of None \<Rightarrow> []
      | Some ex \<Rightarrow> [Stale_client_stop_already_happened (key item) ex]) @ failure_lines outcome items"
  by (simp add: failure_lines_def)

lemma stop_loop_eq:
  "stop_loop outcome items [] s =
     (None, s\<lparr>stopped := stopped s @ map client items,
              plog := plog s @ failure_lines outcome items\<rparr>)"
proof (induction items arbitrary: s)
  case Nil
  show ?case by simp
next
  case (Cons item items)
  show ?case
    by (cases "outcome (client item)")
       (simp_all add: Cons.IH client_stop_def handle_exception_def suspend_def vlog_def
          failure_lines_Cons)
qed

lemma clean_stale_clients_eq:
  "clean_stale_clients outcome now s =
     (None, s\<lparr>cache := filter (\<lambda>e. \<not> is_expired (keep_alive s) now e) (cache s),
              evicted_items := [],
              stopped := stopped s @ map client (filter (is_expired (keep_alive s) now) (cache s))
                           @ map client (evicted_items s),
              plog := plog s @ failure_lines outcome (filter (is_expired (keep_alive s) now) (cache s))
                        @ failure_lines outcome (evicted_items s)\<rparr>)"
  by (simp add: clean_stale_clients_def clean_stale_clients_interleaved_def remove_client_if_def
        remove_client_if_interleaved_def erase_loop_filter stop_loop_eq
        set_inner_list_def set_evicted_items_def always_def)

lemma stop_eq:
  "stop outcome s =
     (None, s\<lparr>cache := [], evicted_items := [],
              stopped := stopped s @ map client (cache s) @ map client (evicted_items s),
              plog := plog s @ failure_lines outcome (cache s)
                        @ failure_lines outcome (evicted_items s)\<rparr>)"
  by (simp add: stop_def stop_interleaved_def remove_client_if_interleaved_def erase_loop_filter
        stop_loop_eq
        set_inner_list_def set_evicted_items_def always_def)

subsection \<open>fetch\_or\_insert, field by field\<close>

text \<open>The call that does not find the key.\<close>

lemma hash_find_None: "hash_find k xs = None \<longleftrightarrow> k \<notin> set (map key xs)"
  by (induction xs) auto

lemma hash_find_Some:
  "hash_find k xs = Some i \<Longrightarrow> i < length xs \<and> key (xs ! i) = k"
  by (induction xs arbitrary: i) (auto split: if_splits)

lemma mset_relocate_front: "mset (relocate_front i xs) = mset xs"
proof (cases "i < length xs")
  case True
  then have "xs = take i xs @ xs ! i # drop (Suc i) xs"
    by (rule id_take_nth_drop)
  then have "mset xs = mset (take i xs @ xs ! i # drop (Suc i) xs)"
    by simp
  with True show ?thesis
    by (simp add: relocate_front_def)
next
  case False
  then show ?thesis by (simp add: relocate_front_def)
qed

lemma length_relocate_front [simp]: "length (relocate_front i xs) = length xs"
  using mset_relocate_front [of i xs] by (metis size_mset)

lemma length_modify [simp]: "length (modify i f xs) = length xs"
  by (simp add: modify_def)

lemma map_client_modify:
  "map client (modify i (\<lambda>item. item\<lparr>last_used := t\<rparr>) xs) = map client xs"
  by (auto simp: modify_def map_update list_eq_iff_nth_eq nth_list_update)

lemma map_key_modify:
  "map key (modify i (\<lambda>item. item\<lparr>last_used := t\<rparr>) xs) = map key xs"
  by (auto simp: modify_def map_update list_eq_iff_nth_eq nth_list_update)

lemma map_relocate_front: "map f (relocate_front i xs) = relocate_front i (map f xs)"
  by (simp add: relocate_front_def take_map drop_map)

lemma miss_fst:
  "hash_find (name user) (cache s) = None \<Longrightarrow> fst (fetch_or_insert user a now s) = next_ptr s"
  by (simp add: fetch_or_insert_def make_client_def Let_def evict_back_def vlog_def split: prod.splits)

lemma miss_cache:
  "hash_find (name user) (cache s) = None \<Longrightarrow>
   cache (snd (fetch_or_insert user a now s)) =
     mk_timestamped_user (name user) (next_ptr s) now
       # (if evicting s then butlast (cache s) else cache s)"
  by (simp add: fetch_or_insert_def make_client_def Let_def evict_back_def vlog_def evicting_def split: prod.splits)

lemma miss_evicted:
  "hash_find (name user) (cache s) = None \<Longrightarrow>
   evicted_items (snd (fetch_or_insert user a now s)) =
     (if evicting s then evicted_items s @ [last (cache s)] else evicted_items s)"
  by (simp add: fetch_or_insert_def make_client_def Let_def evict_back_def vlog_def evicting_def split: prod.splits)

lemma miss_heap:
  "hash_find (name user) (cache s) = None \<Longrightarrow>
   heap (snd (fetch_or_insert user a now s)) =
     (heap s)(next_ptr s \<mapsto> \<lparr>client_config =
        (if a = http_basic
         then (config s)\<lparr>sasl_mechanism := ''SCRAM-SHA-256'', scram_username := name user,
                          scram_password := pass user\<rparr>
         else config s)\<rparr>)"
  by (simp add: fetch_or_insert_def make_client_def Let_def evict_back_def vlog_def evicting_def split: prod.splits)

lemma miss_next_ptr:
  "hash_find (name user) (cache s) = None \<Longrightarrow>
   next_ptr (snd (fetch_or_insert user a now s)) = Suc (next_ptr s)"
  by (simp add: fetch_or_insert_def make_client_def Let_def evict_back_def vlog_def split: prod.splits)

lemma fetch_or_insert_stopped:
  "stopped (snd (fetch_or_insert user a now s)) = stopped s"
  by (simp add: fetch_or_insert_def make_client_def Let_def evict_back_def vlog_def split: prod.splits option.splits)

lemma fetch_or_insert_params:
  "cache_max_size (snd (fetch_or_insert user a now s)) = cache_max_size s"
  "keep_alive (snd (fetch_or_insert user a now s)) = keep_alive s"
  "config (snd (fetch_or_insert user a now s)) = config s"
  by (simp_all add: fetch_or_insert_def make_client_def Let_def evict_back_def vlog_def split: prod.splits option.splits)

text \<open>The call that finds the key: returned handle and new state, field by field.\<close>

lemma hit_fst:
  "hash_find (name user) (cache s) = Some i \<Longrightarrow>
   fst (fetch_or_insert user a now s) = client (cache s ! i)"
  by (simp add: fetch_or_insert_def Let_def)

lemma hit_cache:
  "hash_find (name user) (cache s) = Some i \<Longrightarrow>
   cache (snd (fetch_or_insert user a now s)) =
     relocate_front i (modify i (\<lambda>item. item\<lparr>last_used := now\<rparr>) (cache s))"
  by (simp add: fetch_or_insert_def Let_def vlog_def split: option.splits)

lemma hit_unchanged:
  "hash_find (name user) (cache s) = Some i \<Longrightarrow>
   evicted_items (snd (fetch_or_insert user a now s)) = evicted_items s \<and>
   next_ptr (snd (fetch_or_insert user a now s)) = next_ptr s \<and>
   clean_and_evict_timer (snd (fetch_or_insert user a now s)) = clean_and_evict_timer s"
  by (simp add: fetch_or_insert_def Let_def vlog_def split: option.splits)

lemma hit_heap:
  "hash_find (name user) (cache s) = Some i \<Longrightarrow>
   heap (snd (fetch_or_insert user a now s)) =
     (case heap s (client (cache s ! i)) of
        None \<Rightarrow> heap s
      | Some cl \<Rightarrow>
          if scram_password (client_config cl) \<noteq> pass user
          then (heap s)(client (cache s ! i) \<mapsto>
                  cl\<lparr>client_config := (client_config cl)\<lparr>scram_password := pass user\<rparr>\<rparr>)
          else heap s)"
  by (simp add: fetch_or_insert_def Let_def vlog_def split: option.splits)

subsection \<open>The invariant\<close>

lemma cache_inv_new_cache: "cache_inv (new_cache cfg m ka tm)"
  by (simp add: cache_inv_def new_cache_def)

lemma mset_map_filter_split:
  "mset (map f (filter (\<lambda>x. \<not> P x) xs)) + mset (map f (filter P xs)) = mset (map f xs)"
  by (induction xs) simp_all

lemma cache_inv_clean_stale_clients:
  assumes "cache_inv s"
  shows "cache_inv (snd (clean_stale_clients outcome now s))"
proof -
  let ?P = "is_expired (keep_alive s) now"
  let ?s' = "snd (clean_stale_clients outcome now s)"
  have "mset (map client (filter (\<lambda>x. \<not> ?P x) (cache s))) + mset (map client (filter ?P (cache s)))
          = mset (map client (cache s))"
    by (rule mset_map_filter_split)
  then have "mset (map client (filter (\<lambda>x. \<not> ?P x) (cache s)) @ stopped s
               @ map client (filter ?P (cache s)) @ map client (evicted_items s))
             = mset (map client (cache s) @ map client (evicted_items s) @ stopped s)"
    by (simp add: ac_simps)
  moreover have "mset (map client (cache ?s') @ map client (evicted_items ?s') @ stopped ?s')
             = mset (map client (filter (\<lambda>x. \<not> ?P x) (cache s)) @ stopped s
               @ map client (filter ?P (cache s)) @ map client (evicted_items s))"
    by (simp add: clean_stale_clients_eq)
  moreover have "mset (map client (cache s) @ map client (evicted_items s) @ stopped s)
             = mset [0..<next_ptr s]"
    using assms by (simp add: cache_inv_def)
  moreover have "next_ptr ?s' = next_ptr s"
    by (simp add: clean_stale_clients_eq)
  ultimately have 2: "mset (map client (cache ?s') @ map client (evicted_items ?s') @ stopped ?s')
             = mset [0..<next_ptr ?s']"
    by (simp only:)
  have "length (cache s) \<le> max (cache_max_size s) 1"
    using assms by (simp add: cache_inv_def)
  then have "length (filter (\<lambda>x. \<not> ?P x) (cache s)) \<le> max (cache_max_size s) 1"
    by (rule le_trans [OF length_filter_le])
  then have 4: "length (cache ?s') \<le> max (cache_max_size ?s') 1"
    by (simp add: clean_stale_clients_eq)
  have 1: "distinct (map key (cache ?s'))"
    using assms by (simp add: cache_inv_def distinct_map_filter clean_stale_clients_eq)
  have 3: "dom (heap ?s') = {..<next_ptr ?s'}"
    using assms by (simp add: cache_inv_def clean_stale_clients_eq)
  from 1 2 3 4 show ?thesis by (simp add: cache_inv_def)
qed

lemma cache_inv_stop:
  assumes "cache_inv s"
  shows "cache_inv (snd (stop outcome s))"
  using assms by (simp add: cache_inv_def stop_eq ac_simps)

lemma mset_butlast_last: "xs \<noteq> [] \<Longrightarrow> mset (map f (butlast xs)) + {#f (last xs)#} = mset (map f xs)"
  by (induction xs) auto

lemma cache_inv_miss:
  assumes "cache_inv s" and miss: "hash_find (name user) (cache s) = None"
  shows "cache_inv (snd (fetch_or_insert user a now s))"
proof -
  let ?s' = "snd (fetch_or_insert user a now s)"
  have k: "name user \<notin> set (map key (cache s))"
    using miss by (simp add: hash_find_None)
  have d: "distinct (map key (cache s))" using assms by (simp add: cache_inv_def)
  have 1: "distinct (map key (cache ?s'))"
  proof (cases "evicting s")
    case True
    then have "set (butlast (cache s)) \<subseteq> set (cache s)"
      by (auto dest: in_set_butlastD)
    with k d show ?thesis
      by (auto simp: miss_cache [OF miss] True mk_timestamped_user_def map_butlast distinct_butlast
               dest: in_set_butlastD)
  next
    case False
    with k d show ?thesis
      by (simp add: miss_cache [OF miss] mk_timestamped_user_def)
  qed
  have 2: "mset (map client (cache ?s') @ map client (evicted_items ?s') @ stopped ?s')
             = mset [0..<next_ptr ?s']"
  proof (cases "evicting s")
    case True
    then have "cache s \<noteq> []" by (simp add: evicting_def)
    then have "mset (map client (butlast (cache s))) + {#client (last (cache s))#}
                 = mset (map client (cache s))"
      by (rule mset_butlast_last)
    then have "mset (map client (butlast (cache s)) @ map client (evicted_items s)
                 @ [client (last (cache s))] @ stopped s)
               = mset (map client (cache s) @ map client (evicted_items s) @ stopped s)"
      by (simp add: ac_simps)
    with assms True show ?thesis
      by (simp add: cache_inv_def miss_cache [OF miss] miss_evicted [OF miss] miss_next_ptr [OF miss]
            fetch_or_insert_stopped mk_timestamped_user_def)
  next
    case False
    with assms show ?thesis
      by (simp add: cache_inv_def miss_cache [OF miss] miss_evicted [OF miss] miss_next_ptr [OF miss]
            fetch_or_insert_stopped mk_timestamped_user_def)
  qed
  have 3: "dom (heap ?s') = {..<next_ptr ?s'}"
    using assms by (auto simp: cache_inv_def miss_heap [OF miss] miss_next_ptr [OF miss])
  have 4: "length (cache ?s') \<le> max (cache_max_size ?s') 1"
    using assms
    by (cases "cache s = []")
       (auto simp: cache_inv_def miss_cache [OF miss] fetch_or_insert_params evicting_def)
  from 1 2 3 4 show ?thesis by (simp add: cache_inv_def)
qed

lemma cache_inv_hit:
  assumes "cache_inv s" and hit: "hash_find (name user) (cache s) = Some i"
  shows "cache_inv (snd (fetch_or_insert user a now s))"
proof -
  let ?s' = "snd (fetch_or_insert user a now s)"
  let ?m = "modify i (\<lambda>item. item\<lparr>last_used := now\<rparr>) (cache s)"
  have mk: "mset (map key (cache ?s')) = mset (map key (cache s))"
    by (simp add: hit_cache [OF hit] map_relocate_front mset_relocate_front map_key_modify)
  have mc: "mset (map client (cache ?s')) = mset (map client (cache s))"
    by (simp add: hit_cache [OF hit] map_relocate_front mset_relocate_front map_client_modify)
  have 1: "distinct (map key (cache ?s'))"
    using assms mk by (metis cache_inv_def mset_eq_imp_distinct_iff)
  have 2: "mset (map client (cache ?s') @ map client (evicted_items ?s') @ stopped ?s')
             = mset [0..<next_ptr ?s']"
    using assms mc by (simp add: cache_inv_def hit_unchanged [OF hit] fetch_or_insert_stopped)
  have 3: "dom (heap ?s') = {..<next_ptr ?s'}"
    using assms
    by (auto simp: cache_inv_def hit_heap [OF hit] hit_unchanged [OF hit] split: option.splits if_splits)
  have 4: "length (cache ?s') \<le> max (cache_max_size ?s') 1"
    using assms by (simp add: cache_inv_def hit_cache [OF hit] fetch_or_insert_params)
  from 1 2 3 4 show ?thesis by (simp add: cache_inv_def)
qed

lemma cache_inv_step: "cache_inv s \<Longrightarrow> cache_inv (step op s)"
proof (cases op)
  case (Fetch_or_insert user a now)
  assume "cache_inv s"
  then show ?thesis
    by (cases "hash_find (name user) (cache s)")
       (simp_all add: Fetch_or_insert cache_inv_miss cache_inv_hit)
next
  case (Clean_stale_clients outcome now)
  assume "cache_inv s"
  then show ?thesis by (simp add: Clean_stale_clients cache_inv_clean_stale_clients)
next
  case (Stop outcome)
  assume "cache_inv s"
  then show ?thesis by (simp add: Stop cache_inv_stop)
next
  case (Timer_changed tm)
  assume "cache_inv s"
  then show ?thesis by (simp add: Timer_changed cache_inv_def)
qed

lemma cache_inv_run: "cache_inv s \<Longrightarrow> cache_inv (run ops s)"
  by (induction ops arbitrary: s) (simp_all add: cache_inv_step)

lemma step_params:
  "cache_max_size (step op s) = cache_max_size s"
  "keep_alive (step op s) = keep_alive s"
  "config (step op s) = config s"
  by (cases op; simp add: fetch_or_insert_params clean_stale_clients_eq stop_eq)+

lemma run_params:
  "cache_max_size (run ops s) = cache_max_size s"
  "keep_alive (run ops s) = keep_alive s"
  "config (run ops s) = config s"
  by (induction ops arbitrary: s; simp add: step_params)+

subsection \<open>Consequences of the invariant\<close>

lemma cache_inv_reachable: "cache_inv (run ops (new_cache cfg m ka tm))"
  by (simp add: cache_inv_run cache_inv_new_cache)

lemma cache_inv_distinct:
  assumes "cache_inv s"
  shows "distinct (map client (cache s) @ map client (evicted_items s) @ stopped s)"
proof -
  have "mset (map client (cache s) @ map client (evicted_items s) @ stopped s)
          = mset [0..<next_ptr s]"
    using assms by (simp add: cache_inv_def)
  then show ?thesis
    by (metis mset_eq_imp_distinct_iff distinct_upt)
qed

lemma cache_inv_set:
  assumes "cache_inv s"
  shows "set (map client (cache s) @ map client (evicted_items s) @ stopped s) = {..<next_ptr s}"
proof -
  have "mset (map client (cache s) @ map client (evicted_items s) @ stopped s)
          = mset [0..<next_ptr s]"
    using assms by (simp add: cache_inv_def)
  then have "set (map client (cache s) @ map client (evicted_items s) @ stopped s)
          = set [0..<next_ptr s]"
    by (rule mset_eq_setD)
  then show ?thesis by (simp add: lessThan_atLeast0)
qed

lemma count_list_distinct: "distinct xs \<Longrightarrow> count_list xs x = (if x \<in> set xs then 1 else 0)"
  by (induction xs) auto

lemma cache_inv_stopped_count:
  assumes "cache_inv s" and "h < next_ptr s"
  shows "count_list (stopped s) h =
           (if h \<in> set (map client (cache s @ evicted_items s)) then 0 else 1)"
proof -
  have d: "distinct (map client (cache s) @ map client (evicted_items s) @ stopped s)"
    using assms(1) by (rule cache_inv_distinct)
  have "h \<in> set (map client (cache s) @ map client (evicted_items s) @ stopped s)"
    using assms by (simp only: cache_inv_set lessThan_iff)
  with d show ?thesis
    by (auto simp: count_list_distinct)
qed

lemma cache_inv_heap:
  assumes "cache_inv s" and "e \<in> set (cache s)"
  shows "\<exists>cl. heap s (client e) = Some cl"
proof -
  have "client e \<in> set (map client (cache s) @ map client (evicted_items s) @ stopped s)"
    using assms(2) by simp
  then have "client e \<in> {..<next_ptr s}"
    using assms(1) by (simp only: cache_inv_set)
  then have "client e \<in> dom (heap s)"
    using assms(1) by (simp add: cache_inv_def)
  then show ?thesis by blast
qed




subsection \<open>The entry at the front after fetch\_or\_insert\<close>

lemma fetch_or_insert_front:
  "\<exists>e es. cache (snd (fetch_or_insert user a now s)) = e # es \<and> key e = name user \<and>
           client e = fst (fetch_or_insert user a now s)"
proof (cases "hash_find (name user) (cache s)")
  case None
  then show ?thesis
    by (simp add: miss_cache miss_fst mk_timestamped_user_def)
next
  case (Some i)
  then have "i < length (cache s)" and "key (cache s ! i) = name user"
    by (simp_all add: hash_find_Some)
  then show ?thesis
    by (simp add: hit_cache [OF Some] hit_fst [OF Some] relocate_front_def modify_def)
qed


lemma fetch_or_insert_twice:
  assumes "name user' = name user"
  shows "fst (fetch_or_insert user' a' now' (snd (fetch_or_insert user a now s)))
           = fst (fetch_or_insert user a now s)"
proof -
  obtain e es where c: "cache (snd (fetch_or_insert user a now s)) = e # es"
    and k: "key e = name user" and h: "client e = fst (fetch_or_insert user a now s)"
    using fetch_or_insert_front by blast
  have "hash_find (name user') (cache (snd (fetch_or_insert user a now s))) = Some 0"
    by (simp add: c k assms)
  then have "fst (fetch_or_insert user' a' now' (snd (fetch_or_insert user a now s)))
               = client (cache (snd (fetch_or_insert user a now s)) ! 0)"
    by (rule hit_fst)
  then show ?thesis by (simp add: c h)
qed

subsection \<open>Every entry of the index was returned by an earlier call\<close>

lemma map_key_client_modify:
  "map key_client (modify i (\<lambda>item. item\<lparr>last_used := t\<rparr>) xs) = map key_client xs"
  by (auto simp: modify_def map_update list_eq_iff_nth_eq nth_list_update key_client_def)

lemma set_relocate_front: "set (relocate_front i xs) = set xs"
  using mset_relocate_front [of i xs] by (rule mset_eq_setD)

lemma fetch_or_insert_key_client:
  "set (map key_client (cache (snd (fetch_or_insert user a now s))))
     \<subseteq> insert (name user, fst (fetch_or_insert user a now s)) (set (map key_client (cache s)))"
proof (cases "hash_find (name user) (cache s)")
  case None
  then show ?thesis
    by (auto simp: miss_cache miss_fst mk_timestamped_user_def key_client_def dest: in_set_butlastD)
next
  case (Some i)
  have "map key_client (cache (snd (fetch_or_insert user a now s)))
          = relocate_front i (map key_client (cache s))"
    by (simp add: hit_cache [OF Some] map_relocate_front map_key_client_modify)
  then have "set (map key_client (cache (snd (fetch_or_insert user a now s))))
          = set (map key_client (cache s))"
    by (simp only: set_relocate_front)
  then show ?thesis by blast
qed

lemma step_key_client:
  "set (map key_client (cache (step op s)))
     \<subseteq> set (map key_client (cache s)) \<union> set (returned [op] s)"
proof (cases op)
  case (Fetch_or_insert user a now)
  then show ?thesis
    using fetch_or_insert_key_client [of user a now s] by auto
next
  case (Clean_stale_clients outcome now)
  then show ?thesis by (auto simp: clean_stale_clients_eq)
next
  case (Stop outcome)
  then show ?thesis by (simp add: stop_eq)
next
  case (Timer_changed tm)
  then show ?thesis by simp
qed

lemma run_key_client:
  "set (map key_client (cache (run ops s)))
     \<subseteq> set (map key_client (cache s)) \<union> set (returned ops s)"
proof (induction ops arbitrary: s)
  case Nil
  show ?case by simp
next
  case (Cons op ops)
  have "set (map key_client (cache (run ops (step op s))))
          \<subseteq> set (map key_client (cache (step op s))) \<union> set (returned ops (step op s))"
    by (rule Cons.IH)
  moreover have "set (map key_client (cache (step op s)))
     \<subseteq> set (map key_client (cache s)) \<union> set (returned [op] s)"
    by (rule step_key_client)
  moreover have "set (returned (op # ops) s) = set (returned [op] s) \<union> set (returned ops (step op s))"
    by simp
  ultimately show ?case
    by (simp only: run.simps) blast
qed

lemma index_entry_returned:
  assumes "e \<in> set (cache (run ops (new_cache cfg m ka tm)))"
  shows "(key e, client e) \<in> set (returned ops (new_cache cfg m ka tm))"
proof -
  have "key_client e \<in> set (map key_client (cache (run ops (new_cache cfg m ka tm))))"
    using assms by simp
  then have "key_client e \<in> set (map key_client (cache (new_cache cfg m ka tm)))
                \<union> set (returned ops (new_cache cfg m ka tm))"
    using run_key_client by blast
  then show ?thesis
    by (simp add: new_cache_def key_client_def)
qed

subsection \<open>Signed 64-bit sums\<close>



subsection \<open>The coroutines return under every schedule\<close>

lemma stop_loop_returns: "fst (stop_loop outcome items sched s) = None"
proof (induction items arbitrary: sched s)
  case Nil
  show ?case by simp
next
  case (Cons item items)
  show ?case
    by (cases "outcome (client item)")
       (simp_all add: Cons.IH client_stop_def handle_exception_def suspend_def)
qed

lemma remove_client_if_interleaved_returns:
  "fst (remove_client_if_interleaved outcome get_list set_list pred sched s) = None"
  unfolding remove_client_if_interleaved_def
  by (cases "erase_loop pred (get_list s) [] []") (simp add: stop_loop_returns)

lemma clean_stale_clients_interleaved_returns:
  "fst (clean_stale_clients_interleaved outcome now sched1 sched2 s) = None"
proof (cases "remove_client_if_interleaved outcome cache set_inner_list
                (is_expired (keep_alive s) now) sched1 s")
  case (Pair r s')
  then have "r = None"
    using remove_client_if_interleaved_returns
      [of outcome cache set_inner_list "is_expired (keep_alive s) now" sched1 s] by simp
  with Pair show ?thesis
    by (simp add: clean_stale_clients_interleaved_def remove_client_if_interleaved_returns)
qed

lemma stop_interleaved_returns:
  "fst (stop_interleaved outcome sched1 sched2 s) = None"
proof (cases "remove_client_if_interleaved outcome cache set_inner_list always sched1 s")
  case (Pair r s')
  then have "r = None"
    using remove_client_if_interleaved_returns [of outcome cache set_inner_list always sched1 s]
    by simp
  with Pair show ?thesis
    by (simp add: stop_interleaved_def remove_client_if_interleaved_returns)
qed

subsection \<open>Schedules that serve no call\<close>

lemma stop_loop_quiet:
  "concat sched = [] \<Longrightarrow> stop_loop outcome items sched s = stop_loop outcome items [] s"
proof (induction items arbitrary: sched s)
  case Nil
  then have "concurrent (concat sched) s = s"
    by (simp only: concurrent.simps)
  then show ?case by simp
next
  case (Cons item items)
  show ?case
  proof (cases sched)
    case Nil
    then show ?thesis by simp
  next
    case (Cons cs rest)
    with Cons.prems have cs: "cs = []" and rest: "concat rest = []"
      by simp_all
    have "stop_loop outcome items rest s' = stop_loop outcome items [] s'" for s'
      using rest by (rule Cons.IH)
    then show ?thesis
      by (simp add: Cons cs split: prod.splits option.splits)
  qed
qed

lemma remove_client_if_interleaved_quiet:
  assumes "concat sched = []"
  shows "remove_client_if_interleaved outcome get_list set_list pred sched s =
           remove_client_if_interleaved outcome get_list set_list pred [] s"
  unfolding remove_client_if_interleaved_def
  by (cases "erase_loop pred (get_list s) [] []") (simp add: stop_loop_quiet [OF assms])

lemma stop_interleaved_quiet:
  assumes "concat sched1 = []" and "concat sched2 = []"
  shows "stop_interleaved outcome sched1 sched2 s = stop outcome s"
  unfolding stop_def stop_interleaved_def
  by (simp only: remove_client_if_interleaved_quiet [OF assms(1)]
        remove_client_if_interleaved_quiet [OF assms(2)])

subsection \<open>The two phases of a sweep\<close>




subsection \<open>Evaluation of the worked examples\<close>

lemmas example_defs = example_config_def example_timer_def alice_def bob_def carol_def dave_def
  no_failure_def

lemmas eval_defs = fetch_or_insert_def new_cache_def make_client_def evict_back_def vlog_def
  mk_timestamped_user_def modify_def relocate_front_def rearm_def Let_def evicting_def

section \<open>The claims\<close>

text \<open>
  Claim C1 says that after every \<open>fetch_or_insert\<close> the index holds at most \<open>max_size\<close>
  entries, also when \<open>max_size\<close> is zero. With a maximum of zero the first call finds the
  index empty, skips the eviction (the guard \<open>!_cache.empty()\<close>) and inserts all the same:
  the index then holds one entry.
\<close>

theorem C1_zero_maximum_counterexample:
  "\<not> cache_size (snd (fetch_or_insert \<lparr>name = ''A'', pass = ''secret''\<rparr> http_basic 0
         (new_cache \<lparr>sasl_mechanism = '''', scram_username = '''', scram_password = ''''\<rparr>
            0 1000 \<lparr>armed = False, get_timeout = 0\<rparr>)))
     \<le> max_size (snd (fetch_or_insert \<lparr>name = ''A'', pass = ''secret''\<rparr> http_basic 0
         (new_cache \<lparr>sasl_mechanism = '''', scram_username = '''', scram_password = ''''\<rparr>
            0 1000 \<lparr>armed = False, get_timeout = 0\<rparr>)))"
  by (simp add: cache_size_def max_size_def fetch_or_insert_def new_cache_def make_client_def
        vlog_def mk_timestamped_user_def Let_def)

text \<open>
  Claim C1, amended: for every sequence of operations on a new cache and every configured
  maximum, after every \<open>fetch_or_insert\<close> call the number of entries in the index is at most
  the larger of the configured maximum and one; so at most \<open>max_size\<close> whenever
  \<open>max_size\<close> is positive, and at most one when it is zero.
\<close>

theorem C1_size_bound:
  "cache_size (snd (fetch_or_insert user a now (run ops (new_cache cfg m ka tm)))) \<le> max m 1"
proof -
  let ?s = "run ops (new_cache cfg m ka tm)"
  have "cache_inv (step (Fetch_or_insert user a now) ?s)"
    by (rule cache_inv_step [OF cache_inv_reachable])
  moreover have "cache_max_size ?s = m"
    by (simp add: run_params new_cache_def)
  ultimately show ?thesis
    by (simp add: cache_inv_def cache_size_def fetch_or_insert_params)
qed

theorem C1_size_bound_witness:
  "cache_size (snd (fetch_or_insert bob http_basic 5
     (run [Fetch_or_insert alice http_basic 0] (new_cache example_config 0 1000 example_timer)))) \<le> 1 \<and>
   cache_size (snd (fetch_or_insert carol http_basic 5
     (run [Fetch_or_insert alice http_basic 0, Fetch_or_insert bob http_basic 1]
        (new_cache example_config 2 1000 example_timer)))) \<le> 2"
  using C1_size_bound [of bob http_basic 5 "[Fetch_or_insert alice http_basic 0]" example_config 0
      1000 example_timer]
    C1_size_bound [of carol http_basic 5
      "[Fetch_or_insert alice http_basic 0, Fetch_or_insert bob http_basic 1]" example_config 2
      1000 example_timer]
  by (simp del: run.simps)

text \<open>
  Claim C2: when the identity is in the index of a cache that a sequence of operations has
  produced, \<open>fetch_or_insert\<close> returns the handle stored in that entry, which points to a
  client and is a handle that an earlier call in that sequence returned for the same identity;
  it makes no new client, and a following call with the same identity returns the same handle
  again.
  If the secret supplied equals the password configured on the client the heap is unchanged,
  otherwise the client at that handle has its password replaced by the secret, in place.
\<close>

theorem C2_hit_returns_same_client:
  assumes "s = run ops (new_cache cfg m ka tm)"
    and "hash_find (name user) (cache s) = Some i"
    and "name user' = name user"
  shows "\<exists>cl. heap s (client (cache s ! i)) = Some cl \<and>
           fst (fetch_or_insert user a now s) = client (cache s ! i) \<and>
           (name user, fst (fetch_or_insert user a now s))
             \<in> set (returned ops (new_cache cfg m ka tm)) \<and>
           next_ptr (snd (fetch_or_insert user a now s)) = next_ptr s \<and>
           heap (snd (fetch_or_insert user a now s)) =
             (if scram_password (client_config cl) = pass user then heap s
              else (heap s)(client (cache s ! i) \<mapsto>
                     cl\<lparr>client_config := (client_config cl)\<lparr>scram_password := pass user\<rparr>\<rparr>)) \<and>
           fst (fetch_or_insert user' a' now' (snd (fetch_or_insert user a now s)))
             = fst (fetch_or_insert user a now s)"
proof -
  have inv: "cache_inv s"
    unfolding assms(1) by (rule cache_inv_reachable)
  have i: "i < length (cache s)" and k: "key (cache s ! i) = name user"
    using assms(2) by (simp_all add: hash_find_Some)
  then have mem: "cache s ! i \<in> set (cache s)" by simp
  with inv obtain cl where cl: "heap s (client (cache s ! i)) = Some cl"
    using cache_inv_heap by blast
  have "(key (cache s ! i), client (cache s ! i)) \<in> set (returned ops (new_cache cfg m ka tm))"
    using mem unfolding assms(1) by (rule index_entry_returned)
  then have r: "(name user, fst (fetch_or_insert user a now s))
             \<in> set (returned ops (new_cache cfg m ka tm))"
    by (simp add: k hit_fst [OF assms(2)])
  have "heap (snd (fetch_or_insert user a now s)) =
             (if scram_password (client_config cl) = pass user then heap s
              else (heap s)(client (cache s ! i) \<mapsto>
                     cl\<lparr>client_config := (client_config cl)\<lparr>scram_password := pass user\<rparr>\<rparr>))"
    by (simp add: hit_heap [OF assms(2)] cl)
  moreover note hit_fst [OF assms(2), of a now] hit_unchanged [OF assms(2), of a now]
    fetch_or_insert_twice [OF assms(3), of a' now' a now s] cl r
  ultimately show ?thesis by blast
qed

theorem C2_hit_returns_same_client_witness:
  "hash_find ''alice'' (cache (run [Fetch_or_insert alice http_basic 0]
      (new_cache example_config 2 1000 example_timer))) = Some 0 \<and>
   fst (fetch_or_insert (alice\<lparr>pass := ''a2''\<rparr>) http_basic 5
      (run [Fetch_or_insert alice http_basic 0] (new_cache example_config 2 1000 example_timer))) = 0 \<and>
   next_ptr (snd (fetch_or_insert (alice\<lparr>pass := ''a2''\<rparr>) http_basic 5
      (run [Fetch_or_insert alice http_basic 0] (new_cache example_config 2 1000 example_timer)))) = 1 \<and>
   fst (fetch_or_insert alice http_basic 7 (snd (fetch_or_insert (alice\<lparr>pass := ''a2''\<rparr>) http_basic 5
      (run [Fetch_or_insert alice http_basic 0] (new_cache example_config 2 1000 example_timer))))) = 0"
proof -
  define s where "s = run [Fetch_or_insert alice http_basic 0]
      (new_cache example_config 2 1000 example_timer)"
  define u where "u = alice\<lparr>pass := ''a2''\<rparr>"
  have c: "cache s = [\<lparr>key = ''alice'', client = 0, last_used = 0\<rparr>]" and n: "next_ptr s = 1"
    by (simp_all add: s_def eval_defs example_defs)
  have h: "hash_find (name u) (cache s) = Some 0"
    by (simp add: c u_def alice_def)
  have e: "name alice = name u"
    by (simp add: u_def)
  from C2_hit_returns_same_client [OF s_def h e, of http_basic 5 http_basic 7] h
  have "hash_find ''alice'' (cache s) = Some 0 \<and>
        fst (fetch_or_insert u http_basic 5 s) = 0 \<and>
        next_ptr (snd (fetch_or_insert u http_basic 5 s)) = 1 \<and>
        fst (fetch_or_insert alice http_basic 7 (snd (fetch_or_insert u http_basic 5 s))) = 0"
    by (auto simp: c n u_def alice_def)
  then show ?thesis
    unfolding s_def u_def .
qed

text \<open>
  Claim C3: with a maximum of two and an empty cache, inserting A and B gives size two;
  inserting C moves exactly A to the evicted items and leaves C, B in the index; a call for
  B moves B to the front; inserting D then evicts exactly C, and the index holds D and B.
\<close>

theorem C3_scenario:
  assumes "distinct [name ua, name ub, name uc, name ud]" and "name ub' = name ub"
  shows "let s0 = new_cache cfg 2 ka tm;
             s1 = step (Fetch_or_insert ua aa ta) s0;
             s2 = step (Fetch_or_insert ub ab tb) s1;
             s3 = step (Fetch_or_insert uc ac tc) s2;
             s4 = step (Fetch_or_insert ub' ab' tb') s3;
             s5 = step (Fetch_or_insert ud ad td) s4
         in cache_size s2 = 2 \<and>
            cache s2 = [\<lparr>key = name ub, client = 1, last_used = tb\<rparr>,
                        \<lparr>key = name ua, client = 0, last_used = ta\<rparr>] \<and>
            evicted_items s2 = [] \<and>
            cache_size s3 = 2 \<and>
            cache s3 = [\<lparr>key = name uc, client = 2, last_used = tc\<rparr>,
                        \<lparr>key = name ub, client = 1, last_used = tb\<rparr>] \<and>
            evicted_items s3 = [\<lparr>key = name ua, client = 0, last_used = ta\<rparr>] \<and>
            cache s4 = [\<lparr>key = name ub, client = 1, last_used = tb'\<rparr>,
                        \<lparr>key = name uc, client = 2, last_used = tc\<rparr>] \<and>
            evicted_items s4 = [\<lparr>key = name ua, client = 0, last_used = ta\<rparr>] \<and>
            cache s5 = [\<lparr>key = name ud, client = 3, last_used = td\<rparr>,
                        \<lparr>key = name ub, client = 1, last_used = tb'\<rparr>] \<and>
            evicted_items s5 = [\<lparr>key = name ua, client = 0, last_used = ta\<rparr>,
                                \<lparr>key = name uc, client = 2, last_used = tc\<rparr>] \<and>
            set (map key (cache s5)) = {name ub, name ud}"
proof -
  define s0 where "s0 = new_cache cfg 2 ka tm"
  define s1 where "s1 = step (Fetch_or_insert ua aa ta) s0"
  define s2 where "s2 = step (Fetch_or_insert ub ab tb) s1"
  define s3 where "s3 = step (Fetch_or_insert uc ac tc) s2"
  define s4 where "s4 = step (Fetch_or_insert ub' ab' tb') s3"
  define s5 where "s5 = step (Fetch_or_insert ud ad td) s4"
  note miss = miss_cache miss_evicted miss_next_ptr
  note more = fetch_or_insert_params(1) mk_timestamped_user_def evicting_def
  have c0: "cache s0 = []" "evicted_items s0 = []" "next_ptr s0 = 0" "cache_max_size s0 = 2"
    by (simp_all add: s0_def new_cache_def)
  have m0: "hash_find (name ua) (cache s0) = None"
    by (simp add: c0)
  have c1: "cache s1 = [\<lparr>key = name ua, client = 0, last_used = ta\<rparr>]"
    "evicted_items s1 = []" "next_ptr s1 = 1" "cache_max_size s1 = 2"
    by (simp_all add: s1_def miss [OF m0] more c0)
  have m1: "hash_find (name ub) (cache s1) = None"
    using assms by (auto simp: c1)
  have c2: "cache s2 = [\<lparr>key = name ub, client = 1, last_used = tb\<rparr>,
                        \<lparr>key = name ua, client = 0, last_used = ta\<rparr>]"
    "evicted_items s2 = []" "next_ptr s2 = 2" "cache_max_size s2 = 2"
    by (simp_all add: s2_def miss [OF m1] more c1)
  have m2: "hash_find (name uc) (cache s2) = None"
    using assms by (auto simp: c2)
  have c3: "cache s3 = [\<lparr>key = name uc, client = 2, last_used = tc\<rparr>,
                        \<lparr>key = name ub, client = 1, last_used = tb\<rparr>]"
    "evicted_items s3 = [\<lparr>key = name ua, client = 0, last_used = ta\<rparr>]"
    "next_ptr s3 = 3" "cache_max_size s3 = 2"
    by (simp_all add: s3_def miss [OF m2] more c2)
  have h3: "hash_find (name ub') (cache s3) = Some 1"
    using assms by (auto simp: c3)
  have c4: "cache s4 = [\<lparr>key = name ub, client = 1, last_used = tb'\<rparr>,
                        \<lparr>key = name uc, client = 2, last_used = tc\<rparr>]"
    "evicted_items s4 = [\<lparr>key = name ua, client = 0, last_used = ta\<rparr>]"
    "next_ptr s4 = 3" "cache_max_size s4 = 2"
    by (simp_all add: s4_def hit_cache [OF h3] hit_unchanged [OF h3] fetch_or_insert_params(1)
          c3 modify_def relocate_front_def)
  have m4: "hash_find (name ud) (cache s4) = None"
    using assms by (auto simp: c4)
  have c5: "cache s5 = [\<lparr>key = name ud, client = 3, last_used = td\<rparr>,
                        \<lparr>key = name ub, client = 1, last_used = tb'\<rparr>]"
    "evicted_items s5 = [\<lparr>key = name ua, client = 0, last_used = ta\<rparr>,
                         \<lparr>key = name uc, client = 2, last_used = tc\<rparr>]"
    by (simp_all add: s5_def miss [OF m4] more c4)
  have "cache_size s2 = 2 \<and>
            cache s2 = [\<lparr>key = name ub, client = 1, last_used = tb\<rparr>,
                        \<lparr>key = name ua, client = 0, last_used = ta\<rparr>] \<and>
            evicted_items s2 = [] \<and>
            cache_size s3 = 2 \<and>
            cache s3 = [\<lparr>key = name uc, client = 2, last_used = tc\<rparr>,
                        \<lparr>key = name ub, client = 1, last_used = tb\<rparr>] \<and>
            evicted_items s3 = [\<lparr>key = name ua, client = 0, last_used = ta\<rparr>] \<and>
            cache s4 = [\<lparr>key = name ub, client = 1, last_used = tb'\<rparr>,
                        \<lparr>key = name uc, client = 2, last_used = tc\<rparr>] \<and>
            evicted_items s4 = [\<lparr>key = name ua, client = 0, last_used = ta\<rparr>] \<and>
            cache s5 = [\<lparr>key = name ud, client = 3, last_used = td\<rparr>,
                        \<lparr>key = name ub, client = 1, last_used = tb'\<rparr>] \<and>
            evicted_items s5 = [\<lparr>key = name ua, client = 0, last_used = ta\<rparr>,
                                \<lparr>key = name uc, client = 2, last_used = tc\<rparr>] \<and>
            set (map key (cache s5)) = {name ub, name ud}"
    by (simp add: cache_size_def c2 c3 c4 c5 insert_commute)
  then show ?thesis
    unfolding Let_def s0_def s1_def s2_def s3_def s4_def s5_def .
qed

theorem C3_scenario_witness:
  "distinct [name alice, name bob, name carol, name dave] \<and>
   map key (cache (run [Fetch_or_insert alice http_basic 0, Fetch_or_insert bob http_basic 1,
                        Fetch_or_insert carol http_basic 2, Fetch_or_insert bob http_basic 3,
                        Fetch_or_insert dave http_basic 4]
                    (new_cache example_config 2 1000 example_timer))) = [''dave'', ''bob''] \<and>
   map key (evicted_items (run [Fetch_or_insert alice http_basic 0, Fetch_or_insert bob http_basic 1,
                        Fetch_or_insert carol http_basic 2, Fetch_or_insert bob http_basic 3,
                        Fetch_or_insert dave http_basic 4]
                    (new_cache example_config 2 1000 example_timer))) = [''alice'', ''carol'']"
proof -
  have d: "distinct [name alice, name bob, name carol, name dave]"
    by (simp add: example_defs)
  from C3_scenario [OF d refl, of example_config 1000 example_timer http_basic 0 http_basic 1
        http_basic 2 http_basic 3 http_basic 4] d
  show ?thesis by (simp add: Let_def example_defs)
qed




text \<open>
  Claim C5 says that after \<open>stop()\<close> returns \<open>size()\<close> is zero and the evicted items are
  empty. \<open>stop()\<close> suspends while it awaits the stop of each client, and calls of
  \<open>fetch_or_insert\<close> that are served in the meantime insert and evict again. Here the
  maximum is one, bob is in the index and alice among the evicted items; carol is served
  while \<open>stop()\<close> awaits the stop of bob's client and dave while it awaits the stop of
  alice's: \<open>stop()\<close> returns with dave in the index and carol among the evicted items.
\<close>

theorem C5_interleaved_stop_counterexample:
  "fst (stop_interleaved no_failure [[(carol, http_basic, 5)]] [[(dave, http_basic, 6)]]
          (run [Fetch_or_insert alice http_basic 0, Fetch_or_insert bob http_basic 1]
             (new_cache example_config 1 1000 example_timer))) = None \<and>
   cache_size (snd (stop_interleaved no_failure [[(carol, http_basic, 5)]] [[(dave, http_basic, 6)]]
          (run [Fetch_or_insert alice http_basic 0, Fetch_or_insert bob http_basic 1]
             (new_cache example_config 1 1000 example_timer)))) = 1 \<and>
   evicted_items (snd (stop_interleaved no_failure [[(carol, http_basic, 5)]] [[(dave, http_basic, 6)]]
          (run [Fetch_or_insert alice http_basic 0, Fetch_or_insert bob http_basic 1]
             (new_cache example_config 1 1000 example_timer))))
     = [\<lparr>key = ''carol'', client = 2, last_used = 5\<rparr>]"
  by (simp add: stop_interleaved_def remove_client_if_interleaved_def set_inner_list_def
        set_evicted_items_def always_def client_stop_def handle_exception_def suspend_def
        cache_size_def eval_defs example_defs)

text \<open>
  Claim C5, amended: if no call of \<open>fetch_or_insert\<close> is served while \<open>stop()\<close> is
  suspended, then \<open>stop()\<close> returns without an exception; afterwards \<open>size()\<close> is zero and
  the evicted items are empty; the clients of the index are stopped first, in the order of
  the index, then the clients of the evicted items.
\<close>

theorem C5_stop_drains:
  assumes "concat sched1 = []" and "concat sched2 = []"
  shows "fst (stop_interleaved outcome sched1 sched2 s) = None \<and>
         cache_size (snd (stop_interleaved outcome sched1 sched2 s)) = 0 \<and>
         evicted_items (snd (stop_interleaved outcome sched1 sched2 s)) = [] \<and>
         stopped (snd (stop_interleaved outcome sched1 sched2 s)) =
           stopped s @ map client (cache s) @ map client (evicted_items s)"
  by (simp add: stop_interleaved_quiet [OF assms] stop_eq cache_size_def)

theorem C5_stop_drains_witness:
  "concat [[], []] = ([] :: call list) \<and>
   cache_size (snd (stop_interleaved failing_stop [[], []] [[]]
     (run [Fetch_or_insert alice http_basic 0, Fetch_or_insert bob http_basic 10]
        (new_cache example_config 1 1000 example_timer)))) = 0 \<and>
   evicted_items (snd (stop_interleaved failing_stop [[], []] [[]]
     (run [Fetch_or_insert alice http_basic 0, Fetch_or_insert bob http_basic 10]
        (new_cache example_config 1 1000 example_timer)))) = [] \<and>
   stopped (snd (stop_interleaved failing_stop [[], []] [[]]
     (run [Fetch_or_insert alice http_basic 0, Fetch_or_insert bob http_basic 10]
        (new_cache example_config 1 1000 example_timer)))) = [1, 0]"
proof -
  define s where "s = run [Fetch_or_insert alice http_basic 0, Fetch_or_insert bob http_basic 10]
                   (new_cache example_config 1 1000 example_timer)"
  have c: "cache s = [\<lparr>key = ''bob'', client = 1, last_used = 10\<rparr>]"
    and e: "evicted_items s = [\<lparr>key = ''alice'', client = 0, last_used = 0\<rparr>]"
    and st: "stopped s = []"
    by (simp_all add: s_def eval_defs example_defs)
  have q1: "concat [[], []] = ([] :: call list)" and q2: "concat [[]] = ([] :: call list)"
    by simp_all
  from C5_stop_drains [OF q1 q2, of failing_stop s]
  have "cache_size (snd (stop_interleaved failing_stop [[], []] [[]] s)) = 0 \<and>
        evicted_items (snd (stop_interleaved failing_stop [[], []] [[]] s)) = [] \<and>
        stopped (snd (stop_interleaved failing_stop [[], []] [[]] s)) = [1, 0]"
    by (simp add: c e st)
  with q1 have "concat [[], []] = ([] :: call list) \<and>
        cache_size (snd (stop_interleaved failing_stop [[], []] [[]] s)) = 0 \<and>
        evicted_items (snd (stop_interleaved failing_stop [[], []] [[]] s)) = [] \<and>
        stopped (snd (stop_interleaved failing_stop [[], []] [[]] s)) = [1, 0]"
    by blast
  then show ?thesis
    unfolding s_def .
qed

text \<open>
  Claim C6: in every cache that a sequence of \<open>fetch_or_insert\<close>, \<open>clean_stale_clients\<close>
  and \<open>stop\<close> produces, a client that was made has been stopped not at all while its entry
  is in the index or among the evicted items, and exactly once when its entry is in neither;
  no two entries share a client; and after \<open>stop\<close> every client made has been stopped
  exactly once.
\<close>

theorem C6_stopped_exactly_once:
  assumes "s = run ops (new_cache cfg m ka tm)" and "h < next_ptr s"
  shows "count_list (stopped s) h =
           (if h \<in> set (map client (cache s @ evicted_items s)) then 0 else 1) \<and>
         distinct (map client (cache s @ evicted_items s)) \<and>
         count_list (stopped (snd (stop outcome s))) h = 1"
proof -
  have inv: "cache_inv s"
    unfolding assms(1) by (rule cache_inv_reachable)
  have 1: "count_list (stopped s) h =
           (if h \<in> set (map client (cache s @ evicted_items s)) then 0 else 1)"
    using inv assms(2) by (rule cache_inv_stopped_count)
  have 2: "distinct (map client (cache s @ evicted_items s))"
    using cache_inv_distinct [OF inv] by auto
  have inv': "cache_inv (snd (stop outcome s))"
    using inv by (rule cache_inv_stop)
  have "h < next_ptr (snd (stop outcome s))"
    using assms(2) by (simp add: stop_eq)
  with inv' have "count_list (stopped (snd (stop outcome s))) h =
           (if h \<in> set (map client (cache (snd (stop outcome s)) @ evicted_items (snd (stop outcome s))))
            then 0 else 1)"
    by (rule cache_inv_stopped_count)
  then have 3: "count_list (stopped (snd (stop outcome s))) h = 1"
    by (simp add: stop_eq)
  from 1 2 3 show ?thesis by simp
qed

theorem C6_stopped_exactly_once_witness:
  "0 < next_ptr (run [Fetch_or_insert alice http_basic 0, Fetch_or_insert bob http_basic 10,
                      Clean_stale_clients no_failure 20]
                   (new_cache example_config 1 1000 example_timer)) \<and>
   count_list (stopped (run [Fetch_or_insert alice http_basic 0, Fetch_or_insert bob http_basic 10,
                      Clean_stale_clients no_failure 20]
                   (new_cache example_config 1 1000 example_timer))) 0 = 1 \<and>
   count_list (stopped (snd (stop no_failure
                 (run [Fetch_or_insert alice http_basic 0, Fetch_or_insert bob http_basic 10,
                      Clean_stale_clients no_failure 20]
                   (new_cache example_config 1 1000 example_timer))))) 0 = 1"
proof -
  define s where "s = run [Fetch_or_insert alice http_basic 0, Fetch_or_insert bob http_basic 10,
                      Clean_stale_clients no_failure 20]
                   (new_cache example_config 1 1000 example_timer)"
  have n: "next_ptr s = 2"
    and c: "cache s = [\<lparr>key = ''bob'', client = 1, last_used = 10\<rparr>]"
    and e: "evicted_items s = []"
    by (simp_all add: s_def eval_defs example_defs clean_stale_clients_eq is_expired_def
          int64_wrap_def)
  have h: "0 < next_ptr s"
    by (simp add: n)
  from C6_stopped_exactly_once [OF s_def h, of no_failure] h
  have "0 < next_ptr s \<and> count_list (stopped s) 0 = 1 \<and>
        count_list (stopped (snd (stop no_failure s))) 0 = 1"
    by (simp add: c e)
  then show ?thesis
    unfolding s_def .
qed

text \<open>
  Claim C7: a call that evicts at time \<open>now\<close> re-arms the timer to \<open>now\<close> plus one second
  if the timer is not armed or its deadline is later than that, and leaves the timer as it
  is otherwise.
\<close>

theorem C7_timer_debounce:
  assumes "hash_find (name user) (cache s) = None" and "evicting s"
  shows "clean_and_evict_timer (snd (fetch_or_insert user a now s)) =
           (if \<not> armed (clean_and_evict_timer s) \<or> get_timeout (clean_and_evict_timer s) > now + 1000
            then \<lparr>armed = True, get_timeout = now + 1000\<rparr>
            else clean_and_evict_timer s)"
  using assms
  by (auto simp: fetch_or_insert_def make_client_def Let_def evict_back_def vlog_def evicting_def
        rearm_def split: prod.splits)

theorem C7_timer_debounce_witness:
  "hash_find (name bob) (cache (run [Fetch_or_insert alice http_basic 0]
       (new_cache example_config 1 1000 example_timer))) = None \<and>
   evicting (run [Fetch_or_insert alice http_basic 0]
       (new_cache example_config 1 1000 example_timer)) \<and>
   clean_and_evict_timer (snd (fetch_or_insert bob http_basic 5
     (run [Fetch_or_insert alice http_basic 0] (new_cache example_config 1 1000 example_timer))))
     = \<lparr>armed = True, get_timeout = 1005\<rparr> \<and>
   clean_and_evict_timer (snd (fetch_or_insert bob http_basic 5
     (run [Fetch_or_insert alice http_basic 0, Timer_changed \<lparr>armed = True, get_timeout = 300\<rparr>]
        (new_cache example_config 1 1000 example_timer))))
     = \<lparr>armed = True, get_timeout = 300\<rparr> \<and>
   clean_and_evict_timer (snd (fetch_or_insert bob http_basic 5
     (run [Fetch_or_insert alice http_basic 0, Timer_changed \<lparr>armed = True, get_timeout = 60000\<rparr>]
        (new_cache example_config 1 1000 example_timer))))
     = \<lparr>armed = True, get_timeout = 1005\<rparr>"
proof -
  define s where
    "s = run [Fetch_or_insert alice http_basic 0] (new_cache example_config 1 1000 example_timer)"
  define s1 where
    "s1 = run [Fetch_or_insert alice http_basic 0, Timer_changed \<lparr>armed = True, get_timeout = 300\<rparr>]
        (new_cache example_config 1 1000 example_timer)"
  define s2 where
    "s2 = run [Fetch_or_insert alice http_basic 0, Timer_changed \<lparr>armed = True, get_timeout = 60000\<rparr>]
        (new_cache example_config 1 1000 example_timer)"
  have c: "cache s = [\<lparr>key = ''alice'', client = 0, last_used = 0\<rparr>]" "cache_max_size s = 1"
    "clean_and_evict_timer s = \<lparr>armed = False, get_timeout = 0\<rparr>"
    and c1: "cache s1 = [\<lparr>key = ''alice'', client = 0, last_used = 0\<rparr>]" "cache_max_size s1 = 1"
    "clean_and_evict_timer s1 = \<lparr>armed = True, get_timeout = 300\<rparr>"
    and c2: "cache s2 = [\<lparr>key = ''alice'', client = 0, last_used = 0\<rparr>]" "cache_max_size s2 = 1"
    "clean_and_evict_timer s2 = \<lparr>armed = True, get_timeout = 60000\<rparr>"
    by (simp_all add: s_def s1_def s2_def eval_defs example_defs)
  have m: "hash_find (name bob) (cache s) = None" and e: "evicting s"
    and m1: "hash_find (name bob) (cache s1) = None" and e1: "evicting s1"
    and m2: "hash_find (name bob) (cache s2) = None" and e2: "evicting s2"
    by (simp_all add: c c1 c2 bob_def evicting_def)
  from C7_timer_debounce [OF m e, of http_basic 5] C7_timer_debounce [OF m1 e1, of http_basic 5]
    C7_timer_debounce [OF m2 e2, of http_basic 5] m e
  have "hash_find (name bob) (cache s) = None \<and> evicting s \<and>
        clean_and_evict_timer (snd (fetch_or_insert bob http_basic 5 s))
          = \<lparr>armed = True, get_timeout = 1005\<rparr> \<and>
        clean_and_evict_timer (snd (fetch_or_insert bob http_basic 5 s1))
          = \<lparr>armed = True, get_timeout = 300\<rparr> \<and>
        clean_and_evict_timer (snd (fetch_or_insert bob http_basic 5 s2))
          = \<lparr>armed = True, get_timeout = 1005\<rparr>"
    by (simp add: c c1 c2)
  then show ?thesis
    unfolding s_def s1_def s2_def .
qed

text \<open>
  Claim C8: whatever clients fail to stop, a sweep and a shutdown return without an
  exception, call \<open>stop\<close> on every entry they removed, and write one line to the log for
  every failure. They return without an exception also when calls of \<open>fetch_or_insert\<close>
  are served while they are suspended.
\<close>

theorem C8_stop_failures_contained:
  "fst (clean_stale_clients outcome now s) = None \<and>
   fst (stop outcome s) = None \<and>
   stopped (snd (clean_stale_clients outcome now s)) =
     stopped s @ map client (filter (is_expired (keep_alive s) now) (cache s))
       @ map client (evicted_items s) \<and>
   plog (snd (clean_stale_clients outcome now s)) =
     plog s @ failure_lines outcome (filter (is_expired (keep_alive s) now) (cache s))
       @ failure_lines outcome (evicted_items s) \<and>
   stopped (snd (stop outcome s)) =
     stopped s @ map client (cache s) @ map client (evicted_items s) \<and>
   plog (snd (stop outcome s)) =
     plog s @ failure_lines outcome (cache s) @ failure_lines outcome (evicted_items s) \<and>
   fst (clean_stale_clients_interleaved outcome now sched1 sched2 s) = None \<and>
   fst (stop_interleaved outcome sched1 sched2 s) = None"
  by (simp add: clean_stale_clients_eq stop_eq clean_stale_clients_interleaved_returns
        stop_interleaved_returns)

theorem C8_stop_failures_contained_witness:
  "fst (clean_stale_clients failing_stop 2000
     (run [Fetch_or_insert alice http_basic 0, Fetch_or_insert bob http_basic 10]
        (new_cache example_config 1 1000 example_timer))) = None \<and>
   stopped (snd (clean_stale_clients failing_stop 2000
     (run [Fetch_or_insert alice http_basic 0, Fetch_or_insert bob http_basic 10]
        (new_cache example_config 1 1000 example_timer)))) = [1, 0] \<and>
   plog (snd (clean_stale_clients failing_stop 2000
     (run [Fetch_or_insert alice http_basic 0, Fetch_or_insert bob http_basic 10]
        (new_cache example_config 1 1000 example_timer)))) =
     plog (run [Fetch_or_insert alice http_basic 0, Fetch_or_insert bob http_basic 10]
        (new_cache example_config 1 1000 example_timer))
       @ [Stale_client_stop_already_happened ''bob'' ''broken pipe'']"
proof -
  define s where "s = run [Fetch_or_insert alice http_basic 0, Fetch_or_insert bob http_basic 10]
                   (new_cache example_config 1 1000 example_timer)"
  have c: "cache s = [\<lparr>key = ''bob'', client = 1, last_used = 10\<rparr>]"
    and e: "evicted_items s = [\<lparr>key = ''alice'', client = 0, last_used = 0\<rparr>]"
    and st: "stopped s = []" and ka: "keep_alive s = 1000"
    by (simp_all add: s_def eval_defs example_defs)
  from C8_stop_failures_contained [of failing_stop 2000 s]
  have "fst (clean_stale_clients failing_stop 2000 s) = None \<and>
        stopped (snd (clean_stale_clients failing_stop 2000 s)) = [1, 0] \<and>
        plog (snd (clean_stale_clients failing_stop 2000 s)) =
          plog s @ [Stale_client_stop_already_happened ''bob'' ''broken pipe'']"
    by (simp add: c e st ka is_expired_def int64_wrap_def failure_lines_def failing_stop_def)
  then show ?thesis
    unfolding s_def .
qed



text \<open>
  Claim C10: after a sweep the index is the index before it without the expired entries: the
  entries that remain are the same records (key, handle, time of last use) in the same order.
  Expired are the entries that the test of the sweep finds so, \<open>now >= last_used + keep_alive\<close>
  with the sum taken in signed 64-bit arithmetic as the code takes it. The clients on the
  heap are unchanged.
\<close>

theorem C10_survivors_unchanged:
  "cache (snd (clean_stale_clients outcome now s)) =
     filter (\<lambda>e. \<not> now \<ge> int64_wrap (last_used e + keep_alive s)) (cache s) \<and>
   heap (snd (clean_stale_clients outcome now s)) = heap s"
  by (simp add: clean_stale_clients_eq is_expired_def)

theorem C10_survivors_unchanged_witness:
  "cache (snd (clean_stale_clients no_failure 1550
     (run [Fetch_or_insert alice http_basic 0, Fetch_or_insert bob http_basic 500,
           Fetch_or_insert carol http_basic 600, Fetch_or_insert alice http_basic 700]
        (new_cache example_config 3 1000 example_timer)))) =
     [\<lparr>key = ''alice'', client = 0, last_used = 700\<rparr>, \<lparr>key = ''carol'', client = 2, last_used = 600\<rparr>]"
proof -
  define s where "s = run [Fetch_or_insert alice http_basic 0, Fetch_or_insert bob http_basic 500,
           Fetch_or_insert carol http_basic 600, Fetch_or_insert alice http_basic 700]
        (new_cache example_config 3 1000 example_timer)"
  have c: "cache s = [\<lparr>key = ''alice'', client = 0, last_used = 700\<rparr>,
                      \<lparr>key = ''carol'', client = 2, last_used = 600\<rparr>,
                      \<lparr>key = ''bob'', client = 1, last_used = 500\<rparr>]"
    and ka: "keep_alive s = 1000"
    by (simp_all add: s_def eval_defs example_defs)
  from C10_survivors_unchanged [of no_failure 1550 s]
  have "cache (snd (clean_stale_clients no_failure 1550 s)) =
     [\<lparr>key = ''alice'', client = 0, last_used = 700\<rparr>, \<lparr>key = ''carol'', client = 2, last_used = 600\<rparr>]"
    by (simp add: c ka int64_wrap_def)
  then show ?thesis
    unfolding s_def .
qed

end
